theory Spec2Isabelle
  imports Main "HOL-Library.Word"
begin

unbundle bit_operations_syntax

section \<open>The per-thread input ring (src/src/input.cpp)\<close>

text \<open>
  Pointers (\<open>char*\<close>) and \<open>std::size_t\<close> values are 64-bit words: \<open>+\<close> and \<open>-\<close> wrap
  around as unsigned arithmetic does. A pointer difference is a \<open>ptrdiff_t\<close>: the same
  64 bits read as two's complement (\<open>sint\<close>); compared with a \<open>std::size_t\<close> it is
  converted to unsigned, which is the comparison of the words themselves.

  The class \<open>thread_input_buffer\<close> is declared in a header outside the two files
  modelled here. The members are taken from the constructor's initialiser list;
  \<open>size_\<close> and \<open>frame_alignment_mask_\<close> are \<open>std::size_t\<close>, the type of the constructor
  arguments that initialise them and of \<open>free1\<close>, which is computed from \<open>size_\<close>.

  The model is of the program built with \<open>NDEBUG\<close>, where \<open>assert\<close> expands to nothing
  (\<open>wraparound\<close> has an \<open>#ifndef NDEBUG\<close> block of its own). The condition of an
  \<open>assert\<close> is a predicate of its own, named after the function, where the code
  determines it. \<open>likely(c)\<close> is a branch hint with the value of \<open>c\<close>.
\<close>

type_synonym addr = "64 word"
type_synonym size_t = "64 word"

datatype error = RuntimeError | BadAlloc | SystemError int | Sigsegv

text \<open>
  The calls that leave the ring, in the order they happen: \<open>plog_->commit()\<close>,
  \<open>input_consumed_event_.wait()\<close>, \<open>input_consumed_event_.signal()\<close> and \<open>free(pbegin_)\<close>.
\<close>

datatype event = Commit | Wait | Signal | Free

text \<open>
  \<open>memory\<close> holds the machine words the ring itself stores into the buffer (the
  wrap-around markers), by address. \<open>trace\<close> is the list of calls made so far.
\<close>

record thread_input_buffer =
  buf_size :: size_t
  frame_alignment_mask :: size_t
  pbegin :: addr
  pinput_start :: addr
  pinput_end :: addr
  pcommit_end :: addr
  memory :: "addr \<rightharpoonup> 64 word"
  trace :: "event list"

text \<open>
  Modelled from the spec: \<open>is_power_of_two\<close> is defined in asynclog/detail/utility.hpp,
  outside the two files modelled here; the spec says the alignment is a power of two.
\<close>

definition is_power_of_two :: "size_t \<Rightarrow> bool" where
  "is_power_of_two v = (v \<noteq> 0 \<and> v AND (v - 1) = 0)"

text \<open>
  \<open>allocate_buffer\<close>: \<open>rc\<close> and \<open>pbuffer\<close> are what \<open>posix_memalign\<close> returns and stores.
\<close>

definition allocate_buffer :: "int \<Rightarrow> addr \<Rightarrow> error + addr" where
  "allocate_buffer rc pbuffer = (if 0 \<noteq> rc then Inl RuntimeError else Inr pbuffer)"

definition thread_input_buffer_ctor ::
  "int \<Rightarrow> addr \<Rightarrow> size_t \<Rightarrow> size_t \<Rightarrow> error + thread_input_buffer" where
  "thread_input_buffer_ctor rc pbuffer sz frame_alignment =
     (case allocate_buffer rc pbuffer of
        Inl e \<Rightarrow> Inl e
      | Inr pb \<Rightarrow> Inr \<lparr> buf_size = sz,
                       frame_alignment_mask = frame_alignment,
                       pbegin = pb,
                       pinput_start = pb,
                       pinput_end = pb,
                       pcommit_end = pb,
                       memory = Map.empty,
                       trace = [] \<rparr>)"

definition thread_input_buffer_ctor_assert :: "size_t \<Rightarrow> bool" where
  "thread_input_buffer_ctor_assert frame_alignment = is_power_of_two frame_alignment"

text \<open>
  The rounding both \<open>allocate_input_frame\<close> and \<open>discard_input_frame\<close> start with:
  \<open>auto mask = frame_alignment_mask_; size = (size + mask) & ~mask;\<close>
\<close>

definition rounded_size :: "thread_input_buffer \<Rightarrow> size_t \<Rightarrow> size_t" where
  "rounded_size st sz =
     (let mask = frame_alignment_mask st in (sz + mask) AND NOT mask)"

definition advance_frame_pointer :: "thread_input_buffer \<Rightarrow> addr \<Rightarrow> size_t \<Rightarrow> addr" where
  "advance_frame_pointer st p distance =
     (let p' = p + distance;
          remaining = buf_size st - (p' - pbegin st)
      in if remaining = 0 then pbegin st else p')"

text \<open>The condition of \<open>assert(remaining >= 0)\<close>; \<open>remaining\<close> is a \<open>std::size_t\<close>.\<close>

definition advance_frame_pointer_assert :: "thread_input_buffer \<Rightarrow> addr \<Rightarrow> size_t \<Rightarrow> bool" where
  "advance_frame_pointer_assert st p distance =
     (let p' = p + distance;
          remaining = buf_size st - (p' - pbegin st)
      in remaining \<ge> 0)"

text \<open>
  Modelled from the spec: \<open>log_base::commit\<close> is defined outside the two files modelled
  here; the spec says it advances the ring's \<open>pcommit_end\<close> to \<open>pinput_end\<close>.
\<close>

definition commit :: "thread_input_buffer \<Rightarrow> thread_input_buffer" where
  "commit st = st\<lparr> pcommit_end := pinput_end st, trace := trace st @ [Commit] \<rparr>"

text \<open>
  \<open>wait_input_consumed\<close> up to and including the call of \<open>input_consumed_event_.wait()\<close>.
  What the consumer does until that call returns is given to the loops below.
\<close>

definition wait_input_consumed :: "thread_input_buffer \<Rightarrow> thread_input_buffer" where
  "wait_input_consumed st =
     (let st1 = (if pcommit_end st = pinput_start st then commit st else st)
      in st1\<lparr> trace := trace st1 @ [Wait] \<rparr>)"

definition signal_input_consumed :: "thread_input_buffer \<Rightarrow> thread_input_buffer" where
  "signal_input_consumed st = st\<lparr> trace := trace st @ [Signal] \<rparr>"

definition discard_input_frame ::
  "thread_input_buffer \<Rightarrow> size_t \<Rightarrow> addr \<times> thread_input_buffer" where
  "discard_input_frame st sz =
     (let sz' = rounded_size st sz;
          p = advance_frame_pointer st (pinput_start st) sz'
      in (p, signal_input_consumed (st\<lparr> pinput_start := p \<rparr>)))"

definition wraparound :: "thread_input_buffer \<Rightarrow> addr \<times> thread_input_buffer" where
  "wraparound st = (pbegin st, st\<lparr> pinput_start := pbegin st \<rparr>)"

text \<open>
  The condition of the \<open>assert\<close> in the debug block of \<open>wraparound\<close>; the marker
  \<open>WRAPAROUND_MARKER\<close> is declared in a header outside the two files modelled here and
  is a parameter.
\<close>

definition wraparound_assert :: "64 word \<Rightarrow> thread_input_buffer \<Rightarrow> bool" where
  "wraparound_assert WRAPAROUND_MARKER st =
     (memory st (pinput_start st) = Some WRAPAROUND_MARKER)"

text \<open>
  The consumer thread: the two operations it calls on the ring. While the producer is
  inside \<open>input_consumed_event_.wait()\<close> the consumer runs a list of them.
\<close>

datatype consumer_op = Discard size_t | Wraparound

fun consumer_step :: "consumer_op \<Rightarrow> thread_input_buffer \<Rightarrow> thread_input_buffer" where
  "consumer_step (Discard n) st = snd (discard_input_frame st n)"
| "consumer_step Wraparound st = snd (wraparound st)"

fun consumer_run :: "consumer_op list \<Rightarrow> thread_input_buffer \<Rightarrow> thread_input_buffer" where
  "consumer_run [] st = st"
| "consumer_run (c # cs) st = consumer_run cs (consumer_step c st)"

text \<open>
  One pass through the body of the \<open>while(true)\<close> of \<open>allocate_input_frame\<close>, with the
  size already rounded: \<open>Some\<close> of the returned address and the new state when the pass
  returns, \<open>None\<close> when it reaches a call of \<open>wait_input_consumed\<close>.
\<close>

definition allocate_pass ::
  "64 word \<Rightarrow> thread_input_buffer \<Rightarrow> size_t \<Rightarrow> (addr \<times> thread_input_buffer) option" where
  "allocate_pass WRAPAROUND_MARKER st sz =
     (let pinput_end' = pinput_end st;
          pinput_start' = pinput_start st;
          free = pinput_start' - pinput_end'
      in if sint free > 0 then
           (if sz < free then
              Some (pinput_end', st\<lparr> pinput_end := advance_frame_pointer st pinput_end' sz \<rparr>)
            else None)
         else
           (let free1 = buf_size st - (pinput_end' - pbegin st)
            in if sz < free1 then
                 Some (pinput_end', st\<lparr> pinput_end := advance_frame_pointer st pinput_end' sz \<rparr>)
               else
                 (let free2 = pinput_start' - pbegin st
                  in if sz < free2 then
                       Some (pbegin st,
                             st\<lparr> memory := (memory st)(pinput_end st \<mapsto> WRAPAROUND_MARKER),
                                 pinput_end := advance_frame_pointer st (pbegin st) sz \<rparr>)
                     else None)))"

text \<open>
  The first of the two asserts at the head of the loop body. The second one reads
  \<open>is_aligned\<close> and \<open>frame_alignment_\<close>, which the two files do not define.
\<close>

definition allocate_input_frame_assert :: "thread_input_buffer \<Rightarrow> bool" where
  "allocate_input_frame_assert st = (pinput_end st - pbegin st < buf_size st)"

text \<open>
  A call either returns, with a value and the state it leaves, or is still inside
  \<open>input_consumed_event_.wait()\<close> when the consumer has done all it is going to do.
\<close>

datatype 'a outcome = Returned 'a thread_input_buffer | Waiting thread_input_buffer

text \<open>
  The loop of \<open>allocate_input_frame\<close>. \<open>env\<close> lists, for each call of
  \<open>input_consumed_event_.wait()\<close> that returns, what the consumer did before it returned.
\<close>

fun allocate_loop ::
  "64 word \<Rightarrow> consumer_op list list \<Rightarrow> thread_input_buffer \<Rightarrow> size_t \<Rightarrow> addr outcome" where
  "allocate_loop WRAPAROUND_MARKER [] st sz =
     (case allocate_pass WRAPAROUND_MARKER st sz of
        Some (a, st') \<Rightarrow> Returned a st'
      | None \<Rightarrow> Waiting (wait_input_consumed st))"
| "allocate_loop WRAPAROUND_MARKER (ops # env) st sz =
     (case allocate_pass WRAPAROUND_MARKER st sz of
        Some (a, st') \<Rightarrow> Returned a st'
      | None \<Rightarrow> allocate_loop WRAPAROUND_MARKER env
                  (consumer_run ops (wait_input_consumed st)) sz)"

definition allocate_input_frame ::
  "64 word \<Rightarrow> consumer_op list list \<Rightarrow> thread_input_buffer \<Rightarrow> size_t \<Rightarrow> addr outcome" where
  "allocate_input_frame WRAPAROUND_MARKER env st sz =
     allocate_loop WRAPAROUND_MARKER env st (rounded_size st sz)"

text \<open>The destructor: \<open>commit\<close>, the draining loop, \<open>free\<close>.\<close>

fun drain_loop :: "consumer_op list list \<Rightarrow> thread_input_buffer \<Rightarrow> unit outcome" where
  "drain_loop [] st =
     (if pinput_start st \<noteq> pinput_end st then Waiting (wait_input_consumed st)
      else Returned () st)"
| "drain_loop (ops # env) st =
     (if pinput_start st \<noteq> pinput_end st
      then drain_loop env (consumer_run ops (wait_input_consumed st))
      else Returned () st)"

definition thread_input_buffer_dtor ::
  "consumer_op list list \<Rightarrow> thread_input_buffer \<Rightarrow> unit outcome" where
  "thread_input_buffer_dtor env st =
     (case drain_loop env (commit st) of
        Returned u st' \<Rightarrow> Returned () (st'\<lparr> trace := trace st' @ [Free] \<rparr>)
      | Waiting st' \<Rightarrow> Waiting st')"

section \<open>The thread-local holder (src/include/asynclog/detail/thread\_object.hpp)\<close>

text \<open>
  One \<open>thread_object\<close> and its key. \<open>slot t\<close> is what \<open>pthread_getspecific(key_)\<close> returns
  on thread \<open>t\<close> (0 is \<open>nullptr\<close>); \<open>live\<close> lists the holder objects created by \<open>new\<close>
  and not deleted. \<open>ENOMEM\<close> has its value on Linux.
\<close>

record thread_object =
  slot :: "nat \<Rightarrow> addr"
  live :: "addr list"

definition ENOMEM :: int where
  "ENOMEM = 12"

text \<open>
  The constructor: \<open>rc\<close> is what \<open>pthread_key_create\<close> returns; a fresh key has the
  value \<open>nullptr\<close> on every thread.
\<close>

definition thread_object_ctor :: "int \<Rightarrow> error + thread_object" where
  "thread_object_ctor rc =
     (if 0 \<noteq> rc then Inl BadAlloc else Inr \<lparr> slot = (\<lambda>t. 0), live = [] \<rparr>)"

text \<open>
  \<open>create_and_get\<close> on thread \<open>t\<close>: \<open>created\<close> is what \<open>new holder(...)\<close> does (the
  address of the new object, or the exception it throws), \<open>result\<close> is what
  \<open>pthread_setspecific\<close> returns; it stores the pointer when it returns 0.
\<close>

definition create_and_get ::
  "nat \<Rightarrow> error + addr \<Rightarrow> int \<Rightarrow> thread_object \<Rightarrow> (error + addr) \<times> thread_object" where
  "create_and_get t created result st =
     (case created of
        Inl e \<Rightarrow> (Inl e, st)
      | Inr p \<Rightarrow>
          (let st1 = st\<lparr> live := p # live st \<rparr>
           in if result = 0 then (Inr p, st1\<lparr> slot := (slot st1)(t := p) \<rparr>)
              else if result = ENOMEM then (Inl BadAlloc, st1)
              else (Inl (SystemError result), st1)))"

definition get ::
  "nat \<Rightarrow> error + addr \<Rightarrow> int \<Rightarrow> thread_object \<Rightarrow> (error + addr) \<times> thread_object" where
  "get t created result st =
     (let p = slot st t
      in if p \<noteq> 0 then (Inr p, st) else create_and_get t created result st)"

text \<open>
  \<open>destroy\<close>, which the thread library calls at the exit of thread \<open>t\<close> with the value of
  the slot after clearing the slot; \<open>result\<close> is what the first \<open>pthread_setspecific\<close>
  returns. \<open>raise(SIGSEGV)\<close> ends the process.
\<close>

definition destroy :: "nat \<Rightarrow> addr \<Rightarrow> int \<Rightarrow> thread_object \<Rightarrow> error + thread_object" where
  "destroy t p result st =
     (if p = 0 then Inr st
      else if 0 \<noteq> result then Inl Sigsegv
      else Inr (st\<lparr> live := removeAll p (live st), slot := (slot st)(t := 0) \<rparr>))"

definition thread_exit :: "nat \<Rightarrow> int \<Rightarrow> thread_object \<Rightarrow> error + thread_object" where
  "thread_exit t result st =
     (let p = slot st t;
          st1 = st\<lparr> slot := (slot st)(t := 0) \<rparr>
      in if p = 0 then Inr st1 else destroy t p result st1)"

text \<open>
  What the threads do with one holder: calls of \<open>get\<close> and thread exits, each with the
  answers of the runtime. \<open>new\<close> returns an address that is not null and is not the
  address of a live object; a run in which it does otherwise, or in which the process
  is ended, is \<open>None\<close>.
\<close>

datatype action = Get nat "error + addr" int | Exit nat int

fun new_ok :: "error + addr \<Rightarrow> thread_object \<Rightarrow> bool" where
  "new_ok (Inl e) st = True"
| "new_ok (Inr p) st = (p \<noteq> 0 \<and> p \<notin> set (live st))"

fun step :: "action \<Rightarrow> thread_object \<Rightarrow> thread_object option" where
  "step (Get t created result) st =
     (if new_ok created st then Some (snd (get t created result st)) else None)"
| "step (Exit t result) st =
     (case thread_exit t result st of Inl e \<Rightarrow> None | Inr st' \<Rightarrow> Some st')"

fun run :: "action list \<Rightarrow> thread_object \<Rightarrow> thread_object option" where
  "run [] st = Some st"
| "run (a # as) st = (case step a st of None \<Rightarrow> None | Some st' \<Rightarrow> run as st')"

fun exits :: "action list \<Rightarrow> nat list" where
  "exits [] = []"
| "exits (Get t created result # as) = exits as"
| "exits (Exit t result # as) = t # exits as"

text \<open>
  A ring as the constructor leaves it: 64 bytes at address 4096, constructed with
  \<open>frame_alignment = 16\<close>.
\<close>

definition ring64 :: thread_input_buffer where
  "ring64 = \<lparr> buf_size = 64, frame_alignment_mask = 16, pbegin = 4096,
              pinput_start = 4096, pinput_end = 4096, pcommit_end = 4096,
              memory = Map.empty, trace = [] \<rparr>"

text \<open>
  A ring of 128 bytes at address 4096 with the head at offset 64 and the tail at offset
  112, and a holder on which no thread has called \<open>get\<close> yet.
\<close>

definition ring128 :: thread_input_buffer where
  "ring128 = \<lparr> buf_size = 128, frame_alignment_mask = 16, pbegin = 4096,
               pinput_start = 4160, pinput_end = 4208, pcommit_end = 4208,
               memory = Map.empty, trace = [] \<rparr>"

definition holder0 :: thread_object where
  "holder0 = \<lparr> slot = (\<lambda>t. 0), live = [] \<rparr>"

text \<open>
  The invariant of the holder: a slot that is not null holds the address of a live
  object, and no two threads hold the same one.
\<close>

definition slots_distinct :: "thread_object \<Rightarrow> bool" where
  "slots_distinct st =
     ((\<forall>t. slot st t \<noteq> 0 \<longrightarrow> slot st t \<in> set (live st))
      \<and> (\<forall>t t'. t \<noteq> t' \<longrightarrow> slot st t \<noteq> 0 \<longrightarrow> slot st t \<noteq> slot st t'))"

section \<open>Properties of the ring\<close>

lemma ring64_ctor: "thread_input_buffer_ctor 0 4096 64 16 = Inr ring64"
  by (simp add: thread_input_buffer_ctor_def allocate_buffer_def ring64_def)

subsection \<open>Pointer differences as signed values\<close>

lemma sint_small:
  fixes w :: "64 word"
  assumes "uint w < 2 ^ 63"
  shows "sint w = uint w"
proof -
  have "0 \<le> uint w" by simp
  then have "- (2 ^ 63) \<le> uint w" by (rule order_trans [rotated]) simp
  then have "signed_take_bit 63 (uint w) = uint w"
    using assms by (rule signed_take_bit_int_eq_self)
  then show ?thesis by (simp add: sint_uint)
qed

lemma sint_large:
  fixes w :: "64 word"
  assumes "2 ^ 63 \<le> uint w"
  shows "sint w < 0"
proof -
  have "signed_take_bit 63 (uint w) \<le> uint w - 2 ^ Suc 63"
    using assms by (intro signed_take_bit_int_less_eq) simp
  moreover have "uint w < 2 ^ 64" using uint_lt2p [of w] by simp
  ultimately have "signed_take_bit 63 (uint w) < 0"
    by (simp del: signed_take_bit_negative_iff)
  then show ?thesis by (simp add: sint_uint del: signed_take_bit_negative_iff)
qed

lemma sint_diff_nonpos:
  fixes a b :: "64 word"
  assumes "a \<le> b" and "uint b - uint a < 2 ^ 63"
  shows "\<not> 0 < sint (a - b)"
proof (cases "a = b")
  case True
  then show ?thesis by simp
next
  case False
  with assms(1) have "a < b" by simp
  then have "uint a < uint b" by (simp add: word_less_def)
  then have "uint (a - b) = uint a - uint b + 2 ^ 64"
    by (simp add: uint_sub_if')
  with assms(2) have "2 ^ 63 \<le> uint (a - b)" by simp
  then have "sint (a - b) < 0" by (rule sint_large)
  then show ?thesis by simp
qed

subsection \<open>Advancing a pointer\<close>

lemma advance_frame_pointer_eq:
  "advance_frame_pointer st p d = (if p + d = pbegin st + buf_size st then pbegin st else p + d)"
proof -
  have "(buf_size st - (p + d - pbegin st) = 0) = (p + d = pbegin st + buf_size st)"
    by (auto simp add: algebra_simps)
  then show ?thesis by (simp add: advance_frame_pointer_def Let_def)
qed

lemma advance_frame_pointer_not_end:
  "buf_size st \<noteq> 0 \<Longrightarrow> advance_frame_pointer st p d \<noteq> pbegin st + buf_size st"
  by (simp add: advance_frame_pointer_eq)

lemma advance_frame_pointer_unat:
  fixes st :: thread_input_buffer
  assumes fit: "unat (pbegin st) + unat (buf_size st) \<le> 2 ^ 64"
    and lo: "pbegin st \<le> p"
    and hi: "unat p < unat (pbegin st) + unat (buf_size st)"
    and d: "unat p + unat d \<le> unat (pbegin st) + unat (buf_size st)"
  shows "unat (advance_frame_pointer st p d) =
           (if unat p + unat d = unat (pbegin st) + unat (buf_size st)
            then unat (pbegin st) else unat p + unat d)"
proof (cases "unat p + unat d = unat (pbegin st) + unat (buf_size st)")
  case True
  then have "of_nat (unat p + unat d) = (of_nat (unat (pbegin st) + unat (buf_size st)) :: 64 word)"
    by simp
  then have "p + d = pbegin st + buf_size st" by simp
  with True show ?thesis by (simp add: advance_frame_pointer_eq)
next
  case False
  with d fit have lt: "unat p + unat d < 2 ^ 64" by simp
  then have u: "unat (p + d) = unat p + unat d"
    by (simp add: unat_add_lem [THEN iffD1])
  have "p + d \<noteq> pbegin st + buf_size st"
  proof
    assume e: "p + d = pbegin st + buf_size st"
    have "unat (pbegin st + buf_size st) = (unat (pbegin st) + unat (buf_size st)) mod 2 ^ 64"
      by (simp add: unat_word_ariths)
    with e u have "unat p + unat d = (unat (pbegin st) + unat (buf_size st)) mod 2 ^ 64" by simp
    moreover from lo have "unat (pbegin st) \<le> unat p" by (simp add: word_le_nat_alt)
    ultimately show False
      using False d fit hi unsigned_less [of "buf_size st", where ?'a = nat]
      by (cases "unat (pbegin st) + unat (buf_size st) = 2 ^ 64") auto
  qed
  with False u show ?thesis by (simp add: advance_frame_pointer_eq)
qed

subsection \<open>What the consumer and a wait leave unchanged\<close>

lemma wait_input_consumed_fields:
  "pbegin (wait_input_consumed st) = pbegin st"
  "buf_size (wait_input_consumed st) = buf_size st"
  "frame_alignment_mask (wait_input_consumed st) = frame_alignment_mask st"
  "pinput_start (wait_input_consumed st) = pinput_start st"
  "pinput_end (wait_input_consumed st) = pinput_end st"
  "memory (wait_input_consumed st) = memory st"
  by (simp_all add: wait_input_consumed_def commit_def)

lemma consumer_step_fields:
  "pbegin (consumer_step c st) = pbegin st"
  "buf_size (consumer_step c st) = buf_size st"
  "frame_alignment_mask (consumer_step c st) = frame_alignment_mask st"
  "pinput_end (consumer_step c st) = pinput_end st"
  "pcommit_end (consumer_step c st) = pcommit_end st"
  "memory (consumer_step c st) = memory st"
  by (cases c; simp add: discard_input_frame_def wraparound_def signal_input_consumed_def Let_def)+

lemma consumer_run_fields:
  "pbegin (consumer_run cs st) = pbegin st"
  "buf_size (consumer_run cs st) = buf_size st"
  "frame_alignment_mask (consumer_run cs st) = frame_alignment_mask st"
  "pinput_end (consumer_run cs st) = pinput_end st"
  "pcommit_end (consumer_run cs st) = pcommit_end st"
  "memory (consumer_run cs st) = memory st"
  by (induction cs arbitrary: st; simp add: consumer_step_fields)+

lemma rounded_size_consumer:
  "rounded_size (consumer_run ops (wait_input_consumed st)) sz = rounded_size st sz"
  by (simp add: rounded_size_def consumer_run_fields wait_input_consumed_fields)

lemma consumer_step_head:
  "buf_size st \<noteq> 0 \<Longrightarrow> pinput_start st \<noteq> pbegin st + buf_size st \<Longrightarrow>
   pinput_start (consumer_step c st) \<noteq> pbegin st + buf_size st"
  by (cases c)
    (simp_all add: discard_input_frame_def wraparound_def signal_input_consumed_def Let_def
      advance_frame_pointer_not_end)

lemma consumer_run_head:
  "buf_size st \<noteq> 0 \<Longrightarrow> pinput_start st \<noteq> pbegin st + buf_size st \<Longrightarrow>
   pinput_start (consumer_run cs st) \<noteq> pbegin st + buf_size st"
proof (induction cs arbitrary: st)
  case Nil
  then show ?case by simp
next
  case (Cons c cs)
  have "pinput_start (consumer_run cs (consumer_step c st))
          \<noteq> pbegin (consumer_step c st) + buf_size (consumer_step c st)"
    using Cons.prems by (intro Cons.IH) (simp_all add: consumer_step_fields consumer_step_head)
  then show ?case by (simp add: consumer_step_fields)
qed

lemma allocate_pass_tail:
  assumes "buf_size st \<noteq> 0" and "allocate_pass WM st n = Some (a, st')"
  shows "pinput_end st' \<noteq> pbegin st + buf_size st \<and> pinput_start st' = pinput_start st
         \<and> pbegin st' = pbegin st \<and> buf_size st' = buf_size st"
  using assms
  by (auto simp add: allocate_pass_def Let_def advance_frame_pointer_not_end split: if_splits)

lemma allocate_loop_inside:
  assumes "buf_size st \<noteq> 0" and "pinput_start st \<noteq> pbegin st + buf_size st"
    and "allocate_loop WM env st n = Returned a st'"
  shows "pinput_start st' \<noteq> pbegin st + buf_size st \<and> pinput_end st' \<noteq> pbegin st + buf_size st"
  using assms
proof (induction env arbitrary: st)
  case Nil
  then show ?case
    by (auto split: option.splits dest: allocate_pass_tail)
next
  case (Cons ops env)
  show ?case
  proof (cases "allocate_pass WM st n")
    case None
    let ?s = "consumer_run ops (wait_input_consumed st)"
    have b: "pbegin ?s = pbegin st" "buf_size ?s = buf_size st"
      by (simp_all add: consumer_run_fields wait_input_consumed_fields)
    have "pinput_start ?s \<noteq> pbegin (wait_input_consumed st) + buf_size (wait_input_consumed st)"
      using Cons.prems(1,2)
      by (intro consumer_run_head) (simp_all add: wait_input_consumed_fields)
    then have h: "pinput_start ?s \<noteq> pbegin ?s + buf_size ?s"
      by (simp add: b wait_input_consumed_fields)
    from None Cons.prems(3) have "allocate_loop WM env ?s n = Returned a st'" by simp
    with Cons.IH [of ?s] h Cons.prems(1) b show ?thesis by simp
  next
    case (Some r)
    with Cons.prems show ?thesis
      by (cases r) (auto dest: allocate_pass_tail)
  qed
qed

subsection \<open>The calls made while waiting\<close>

lemma consumer_step_trace:
  "\<exists>evs. trace (consumer_step c st) = trace st @ evs \<and> Free \<notin> set evs"
  by (cases c) (simp_all add: discard_input_frame_def wraparound_def signal_input_consumed_def Let_def)

lemma consumer_run_trace:
  "\<exists>evs. trace (consumer_run cs st) = trace st @ evs \<and> Free \<notin> set evs"
proof (induction cs arbitrary: st)
  case Nil
  then show ?case by simp
next
  case (Cons c cs)
  obtain e1 where e1: "trace (consumer_step c st) = trace st @ e1" "Free \<notin> set e1"
    using consumer_step_trace by blast
  obtain e2 where e2: "trace (consumer_run cs (consumer_step c st)) = trace (consumer_step c st) @ e2"
    "Free \<notin> set e2"
    using Cons.IH by blast
  from e1 e2 have "trace (consumer_run (c # cs) st) = trace st @ (e1 @ e2) \<and> Free \<notin> set (e1 @ e2)"
    by simp
  then show ?case by blast
qed

lemma wait_input_consumed_trace:
  "\<exists>evs. trace (wait_input_consumed st) = trace st @ evs @ [Wait] \<and> Free \<notin> set evs"
  by (simp add: wait_input_consumed_def commit_def)

lemma drain_loop_trace:
  "case drain_loop env st of
     Returned u st' \<Rightarrow>
       (\<exists>evs. trace st' = trace st @ evs \<and> Free \<notin> set evs
              \<and> (pinput_start st = pinput_end st \<or> Wait \<in> set evs))
       \<and> pinput_start st' = pinput_end st'
   | Waiting st' \<Rightarrow> (\<exists>evs. trace st' = trace st @ evs @ [Wait] \<and> Free \<notin> set evs)"
proof (induction env arbitrary: st)
  case Nil
  then show ?case using wait_input_consumed_trace [of st] by simp
next
  case (Cons ops env)
  show ?case
  proof (cases "pinput_start st \<noteq> pinput_end st")
    case False
    then show ?thesis by simp
  next
    case True
    let ?w = "wait_input_consumed st"
    let ?s = "consumer_run ops ?w"
    obtain e1 where e1: "trace ?w = trace st @ e1 @ [Wait]" "Free \<notin> set e1"
      using wait_input_consumed_trace by blast
    obtain e2 where e2: "trace ?s = trace ?w @ e2" "Free \<notin> set e2"
      using consumer_run_trace by blast
    have pre: "trace ?s = trace st @ (e1 @ [Wait] @ e2)" "Free \<notin> set (e1 @ [Wait] @ e2)"
      using e1 e2 by simp_all
    show ?thesis
    proof (cases "drain_loop env ?s")
      case (Returned u st')
      with Cons.IH [of ?s] obtain e3 where
        e3: "trace st' = trace ?s @ e3" "Free \<notin> set e3" "pinput_start st' = pinput_end st'"
        by auto
      with pre have "trace st' = trace st @ ((e1 @ [Wait] @ e2) @ e3)
          \<and> Free \<notin> set ((e1 @ [Wait] @ e2) @ e3) \<and> Wait \<in> set ((e1 @ [Wait] @ e2) @ e3)"
        by simp
      then have "\<exists>evs. trace st' = trace st @ evs \<and> Free \<notin> set evs
          \<and> (pinput_start st = pinput_end st \<or> Wait \<in> set evs)"
        by blast
      with True Returned e3 show ?thesis by simp
    next
      case (Waiting st')
      with Cons.IH [of ?s] obtain e3 where
        e3: "trace st' = trace ?s @ e3 @ [Wait]" "Free \<notin> set e3"
        by auto
      with pre have "trace st' = trace st @ ((e1 @ [Wait] @ e2) @ e3) @ [Wait]
          \<and> Free \<notin> set ((e1 @ [Wait] @ e2) @ e3)"
        by simp
      then have "\<exists>evs. trace st' = trace st @ evs @ [Wait] \<and> Free \<notin> set evs" by blast
      with True Waiting show ?thesis by simp
    qed
  qed
qed

subsection \<open>The claims about the ring\<close>

text \<open>
  C1. The size of a frame is the request rounded up to the next multiple of the frame
  alignment. The constructor stores \<open>frame_alignment\<close> itself as the mask, not
  \<open>frame_alignment - 1\<close>: on a ring constructed with alignment 16 (a power of two, as
  the constructor asserts) a request of 1 byte is rounded to 1, not to 16, and the
  frame that \<open>allocate_input_frame\<close> hands out is 1 byte long.
\<close>

theorem rounded_size_not_rounded_up:
  "thread_input_buffer_ctor 0 4096 64 16 = Inr ring64
   \<and> thread_input_buffer_ctor_assert 16
   \<and> frame_alignment_mask ring64 = 16
   \<and> rounded_size ring64 1 = 1
   \<and> allocate_input_frame 1 [] ring64 1 = Returned 4096 (ring64\<lparr> pinput_end := 4097 \<rparr>)"
  by (simp add: thread_input_buffer_ctor_def allocate_buffer_def ring64_def
      thread_input_buffer_ctor_assert_def is_power_of_two_def rounded_size_def
      allocate_input_frame_def allocate_pass_def advance_frame_pointer_def)

text \<open>
  C2. Head, tail and every returned address are at a multiple of the frame alignment
  from \<open>pbegin\<close>. On the ring constructed with alignment 16, the first allocation of
  1 byte leaves the tail at \<open>pbegin + 1\<close>, and the second allocation returns that
  address (with asserts compiled in, it is the misaligned tail that the second call
  meets).
\<close>

theorem allocate_input_frame_misaligned:
  "thread_input_buffer_ctor 0 4096 64 16 = Inr ring64
   \<and> allocate_input_frame 1 [] ring64 1 = Returned 4096 (ring64\<lparr> pinput_end := 4097 \<rparr>)
   \<and> unat (pinput_end (ring64\<lparr> pinput_end := 4097 \<rparr>) - pbegin ring64) mod 16 = 1
   \<and> allocate_input_frame 1 [] (ring64\<lparr> pinput_end := 4097 \<rparr>) 1
       = Returned 4097 (ring64\<lparr> pinput_end := 4098 \<rparr>)
   \<and> unat (4097 - pbegin ring64) mod 16 = 1"
  by (simp add: thread_input_buffer_ctor_def allocate_buffer_def ring64_def
      rounded_size_def allocate_input_frame_def allocate_pass_def advance_frame_pointer_def)

text \<open>
  C3. \<open>allocate_input_frame\<close> serves a request only under strict inequality. With \<open>N\<close>
  the rounded size: when the free space is contiguous (\<open>free > 0\<close>) and \<open>free <= N\<close>, or
  it is split and \<open>free1 <= N\<close> and \<open>free2 <= N\<close> (equality included in each), the pass
  through the loop body serves nothing and calls \<open>wait_input_consumed\<close>; if the
  consumer does nothing more the call stays in the wait, otherwise it tries again on the
  state the consumer leaves. On the empty ring of 64 bytes with alignment 16 a request
  of 64 bytes waits.
\<close>

theorem allocate_input_frame_strict:
  fixes st :: thread_input_buffer
  defines "free \<equiv> pinput_start st - pinput_end st"
    and "free1 \<equiv> buf_size st - (pinput_end st - pbegin st)"
    and "free2 \<equiv> pinput_start st - pbegin st"
  assumes "if 0 < sint free then free \<le> rounded_size st sz
           else free1 \<le> rounded_size st sz \<and> free2 \<le> rounded_size st sz"
  shows "allocate_pass WM st (rounded_size st sz) = None
       \<and> allocate_input_frame WM [] st sz = Waiting (wait_input_consumed st)
       \<and> allocate_input_frame WM (ops # env) st sz =
           allocate_input_frame WM env (consumer_run ops (wait_input_consumed st)) sz"
proof -
  have "allocate_pass WM st (rounded_size st sz) = None"
    using assms by (auto simp add: allocate_pass_def Let_def not_less split: if_splits)
  then show ?thesis
    by (simp add: allocate_input_frame_def rounded_size_consumer)
qed

theorem allocate_input_frame_strict_witness:
  "rounded_size ring64 64 = 64
   \<and> \<not> 0 < sint (pinput_start ring64 - pinput_end ring64)
   \<and> buf_size ring64 - (pinput_end ring64 - pbegin ring64) = 64
   \<and> pinput_start ring64 - pbegin ring64 = 0
   \<and> allocate_input_frame 1 [] ring64 64 = Waiting (wait_input_consumed ring64)"
  using allocate_input_frame_strict [of ring64 64 1]
  by (simp add: ring64_def rounded_size_def)

text \<open>
  C4. \<open>wait_input_consumed\<close> calls \<open>commit\<close> before it waits on the event exactly when
  \<open>pcommit_end\<close> equals \<open>pinput_start\<close> at entry; otherwise it only waits. The calls it
  adds to the trace are \<open>Commit, Wait\<close> in the first case and \<open>Wait\<close> alone in the
  second, and it moves \<open>pcommit_end\<close> only in the first.
\<close>

theorem wait_input_consumed_commits_iff:
  "trace (wait_input_consumed st) =
     trace st @ (if pcommit_end st = pinput_start st then [Commit, Wait] else [Wait])
   \<and> pcommit_end (wait_input_consumed st) =
     (if pcommit_end st = pinput_start st then pinput_end st else pcommit_end st)"
  by (simp add: wait_input_consumed_def commit_def)

theorem wait_input_consumed_commits_iff_witness:
  "trace (wait_input_consumed ring64) = [Commit, Wait]
   \<and> trace (wait_input_consumed (ring64\<lparr> pcommit_end := 4112 \<rparr>)) = [Wait]"
  using wait_input_consumed_commits_iff [of ring64]
    wait_input_consumed_commits_iff [of "ring64\<lparr> pcommit_end := 4112 \<rparr>"]
  by (simp add: ring64_def)

text \<open>
  C5. When the tail is not below the head (and their distance is one a \<open>ptrdiff_t\<close> can
  hold), the rounded size \<open>N\<close> does not fit the first segment (\<open>free1 <= N\<close>) and fits
  the second (\<open>N < free2\<close>), \<open>allocate_input_frame\<close> stores the marker as one word at
  the old tail, sets the tail to \<open>pbegin + N\<close>, or to \<open>pbegin\<close> if that is
  \<open>pbegin + size\<close>, and returns \<open>pbegin\<close>, without waiting.
\<close>

theorem allocate_input_frame_wraparound:
  fixes st :: thread_input_buffer
  defines "free1 \<equiv> buf_size st - (pinput_end st - pbegin st)"
    and "free2 \<equiv> pinput_start st - pbegin st"
  assumes "pinput_start st \<le> pinput_end st"
    and "uint (pinput_end st) - uint (pinput_start st) < 2 ^ 63"
    and "free1 \<le> rounded_size st sz"
    and "rounded_size st sz < free2"
  shows "allocate_input_frame WM env st sz =
           Returned (pbegin st)
             (st\<lparr> memory := (memory st)(pinput_end st \<mapsto> WM),
                 pinput_end := (if pbegin st + rounded_size st sz = pbegin st + buf_size st
                                then pbegin st else pbegin st + rounded_size st sz) \<rparr>)"
proof -
  have s: "\<not> 0 < sint (pinput_start st - pinput_end st)"
    using assms(3,4) by (rule sint_diff_nonpos)
  have "allocate_pass WM st (rounded_size st sz) =
          Some (pbegin st,
                st\<lparr> memory := (memory st)(pinput_end st \<mapsto> WM),
                    pinput_end := advance_frame_pointer st (pbegin st) (rounded_size st sz) \<rparr>)"
    using s leD [OF assms(5)] assms(6) unfolding free1_def free2_def
    by (simp add: allocate_pass_def Let_def)
  then show ?thesis
    by (cases env) (simp_all add: allocate_input_frame_def advance_frame_pointer_eq)
qed

theorem allocate_input_frame_wraparound_witness:
  "pinput_start ring128 \<le> pinput_end ring128
   \<and> uint (pinput_end ring128) - uint (pinput_start ring128) < 2 ^ 63
   \<and> rounded_size ring128 32 = 32
   \<and> buf_size ring128 - (pinput_end ring128 - pbegin ring128) = 16
   \<and> pinput_start ring128 - pbegin ring128 = 64
   \<and> allocate_input_frame 1 [] ring128 32 =
       Returned 4096 (ring128\<lparr> memory := [4208 \<mapsto> 1], pinput_end := 4128 \<rparr>)"
  using allocate_input_frame_wraparound [of ring128 32 1 "[]"]
  by (simp add: ring128_def rounded_size_def)

text \<open>
  C6. The destructor calls \<open>commit\<close> first, then waits on the event as long as the head
  differs from the tail, and calls \<open>free\<close> last and once, in a state where the head
  equals the tail. While the ring is not drained the destructor is in a wait and
  \<open>free\<close> has not been called.
\<close>

theorem thread_input_buffer_dtor_order:
  "case thread_input_buffer_dtor env st of
     Returned u st' \<Rightarrow>
       (\<exists>evs. trace st' = trace st @ [Commit] @ evs @ [Free] \<and> Free \<notin> set evs
              \<and> (pinput_start st = pinput_end st \<or> Wait \<in> set evs))
       \<and> pinput_start st' = pinput_end st'
   | Waiting st' \<Rightarrow>
       (\<exists>evs. trace st' = trace st @ [Commit] @ evs @ [Wait] \<and> Free \<notin> set evs)"
proof (cases "drain_loop env (commit st)")
  case (Returned u st')
  with drain_loop_trace [where env = env and st = "commit st"] obtain evs where
    "trace st' = trace (commit st) @ evs" "Free \<notin> set evs"
    "pinput_start (commit st) = pinput_end (commit st) \<or> Wait \<in> set evs"
    "pinput_start st' = pinput_end st'"
    by auto
  with Returned show ?thesis
    by (simp add: thread_input_buffer_dtor_def commit_def)
next
  case (Waiting st')
  with drain_loop_trace [where env = env and st = "commit st"] obtain evs where
    "trace st' = trace (commit st) @ evs @ [Wait]" "Free \<notin> set evs"
    by auto
  with Waiting show ?thesis
    by (simp add: thread_input_buffer_dtor_def commit_def)
qed

theorem thread_input_buffer_dtor_order_witness:
  "thread_input_buffer_dtor [[Discard 32]] (ring64\<lparr> pinput_end := 4128 \<rparr>) =
     Returned () (ring64\<lparr> pinput_start := 4128, pinput_end := 4128, pcommit_end := 4128,
                          trace := [Commit, Wait, Signal, Free] \<rparr>)
   \<and> thread_input_buffer_dtor [] (ring64\<lparr> pinput_end := 4128 \<rparr>) =
     Waiting (ring64\<lparr> pinput_end := 4128, pcommit_end := 4128, trace := [Commit, Wait] \<rparr>)"
  using thread_input_buffer_dtor_order
      [where env = "[[Discard 32]]" and st = "ring64\<lparr> pinput_end := 4128 \<rparr>"]
    thread_input_buffer_dtor_order
      [where env = "[]" and st = "ring64\<lparr> pinput_end := 4128 \<rparr>"]
  by (simp add: thread_input_buffer_dtor_def commit_def wait_input_consumed_def
      discard_input_frame_def signal_input_consumed_def rounded_size_def
      advance_frame_pointer_def ring64_def)

text \<open>
  C7. For a pointer \<open>p\<close> inside the buffer and a distance \<open>d\<close> with
  \<open>p + d <= pbegin + size\<close>, \<open>advance_frame_pointer\<close> returns \<open>p + d\<close>, except that it
  returns \<open>pbegin\<close> when \<open>p + d = pbegin + size\<close>. Hence, on a ring whose head and tail
  are not at \<open>pbegin + size\<close>, neither is after \<open>discard_input_frame\<close>, nor after
  \<open>allocate_input_frame\<close> returns.
\<close>

theorem advance_frame_pointer_wraps:
  fixes st :: thread_input_buffer
  assumes "unat (pbegin st) + unat (buf_size st) \<le> 2 ^ 64"
    and "pbegin st \<le> p"
    and "unat p < unat (pbegin st) + unat (buf_size st)"
    and "unat p + unat distance \<le> unat (pbegin st) + unat (buf_size st)"
    and "pinput_start st \<noteq> pbegin st + buf_size st"
    and "pinput_end st \<noteq> pbegin st + buf_size st"
  shows "unat (advance_frame_pointer st p distance) =
           (if unat p + unat distance = unat (pbegin st) + unat (buf_size st)
            then unat (pbegin st) else unat p + unat distance)
       \<and> pinput_start (snd (discard_input_frame st n)) \<noteq> pbegin st + buf_size st
       \<and> pinput_end (snd (discard_input_frame st n)) \<noteq> pbegin st + buf_size st
       \<and> (case allocate_input_frame WM env st n of
            Returned a st' \<Rightarrow> pinput_start st' \<noteq> pbegin st + buf_size st
                              \<and> pinput_end st' \<noteq> pbegin st + buf_size st
          | Waiting st' \<Rightarrow> True)"
proof -
  from assms(2) have "unat (pbegin st) \<le> unat p" by (simp add: word_le_nat_alt)
  with assms(3) have "unat (buf_size st) \<noteq> 0" by simp
  then have nz: "buf_size st \<noteq> 0" by auto
  have a: "unat (advance_frame_pointer st p distance) =
           (if unat p + unat distance = unat (pbegin st) + unat (buf_size st)
            then unat (pbegin st) else unat p + unat distance)"
    using assms(1-4) by (rule advance_frame_pointer_unat)
  have b: "pinput_start (snd (discard_input_frame st n)) \<noteq> pbegin st + buf_size st"
    using nz
    by (simp add: discard_input_frame_def signal_input_consumed_def Let_def
        advance_frame_pointer_not_end)
  have c: "pinput_end (snd (discard_input_frame st n)) \<noteq> pbegin st + buf_size st"
    using assms(6) by (simp add: discard_input_frame_def signal_input_consumed_def Let_def)
  have d: "case allocate_input_frame WM env st n of
            Returned a st' \<Rightarrow> pinput_start st' \<noteq> pbegin st + buf_size st
                              \<and> pinput_end st' \<noteq> pbegin st + buf_size st
          | Waiting st' \<Rightarrow> True"
    using allocate_loop_inside [OF nz assms(5)]
    by (simp add: allocate_input_frame_def split: outcome.split)
  from a b c d show ?thesis by simp
qed

theorem advance_frame_pointer_wraps_witness:
  "unat (pbegin ring64) + unat (buf_size ring64) \<le> 2 ^ 64
   \<and> pbegin ring64 \<le> 4144
   \<and> unat (4144 :: 64 word) < unat (pbegin ring64) + unat (buf_size ring64)
   \<and> unat (4144 :: 64 word) + unat (16 :: 64 word) = unat (pbegin ring64) + unat (buf_size ring64)
   \<and> pinput_start ring64 \<noteq> pbegin ring64 + buf_size ring64
   \<and> pinput_end ring64 \<noteq> pbegin ring64 + buf_size ring64
   \<and> unat (advance_frame_pointer ring64 4144 16) = unat (pbegin ring64)
   \<and> pinput_start (snd (discard_input_frame ring64 64)) = pbegin ring64"
  using advance_frame_pointer_wraps
      [where st = ring64 and p = 4144 and distance = 16 and n = 64 and WM = 1 and env = "[]"]
  by (simp add: ring64_def discard_input_frame_def signal_input_consumed_def
      rounded_size_def advance_frame_pointer_def)

text \<open>
  C8. \<open>advance_frame_pointer\<close> asserts that the pointer does not move past the end of
  the buffer. \<open>remaining\<close> is unsigned, so the condition \<open>remaining >= 0\<close> of the assert
  holds for every call: with the ring of 64 bytes at 4096, advancing \<open>pbegin + 48\<close> by 32
  passes the assert and returns \<open>pbegin + 80\<close>, 16 bytes past the end.
\<close>

theorem advance_frame_pointer_assert_always:
  "advance_frame_pointer_assert st p distance
   \<and> advance_frame_pointer_assert ring64 4144 32
   \<and> advance_frame_pointer ring64 4144 32 = 4176
   \<and> unat (pbegin ring64) + unat (buf_size ring64) = 4160"
  by (simp add: advance_frame_pointer_assert_def advance_frame_pointer_def ring64_def)

section \<open>Properties of the holder\<close>

lemma slots_distinct_ctor: "thread_object_ctor rc = Inr st \<Longrightarrow> slots_distinct st"
  by (auto simp add: thread_object_ctor_def slots_distinct_def split: if_splits)

lemma get_slots_distinct:
  assumes "slots_distinct st" and "new_ok created st"
  shows "slots_distinct (snd (get t created result st))"
proof (cases "slot st t = 0")
  case False
  with assms show ?thesis by (simp add: get_def)
next
  case True
  show ?thesis
  proof (cases created)
    case (Inl e)
    with True assms show ?thesis by (simp add: get_def create_and_get_def)
  next
    case (Inr p)
    with assms(2) have p: "p \<noteq> 0" "p \<notin> set (live st)" by simp_all
    from assms(1) p have "\<forall>t. slot st t \<noteq> p"
      by (metis slots_distinct_def)
    with True Inr assms(1) p show ?thesis
      by (auto simp add: get_def create_and_get_def slots_distinct_def Let_def)
  qed
qed

lemma thread_exit_slots_distinct:
  assumes "slots_distinct st" and "thread_exit t result st = Inr st'"
  shows "slots_distinct st'"
proof (cases "slot st t = 0")
  case True
  with assms have "st' = st\<lparr> slot := (slot st)(t := 0) \<rparr>"
    by (simp add: thread_exit_def)
  with assms(1) show ?thesis by (auto simp add: slots_distinct_def)
next
  case False
  with assms(2) have st': "st' = st\<lparr> live := removeAll (slot st t) (live st), slot := (slot st)(t := 0) \<rparr>"
    by (auto simp add: thread_exit_def destroy_def Let_def split: if_splits)
  from assms(1) False have "\<forall>t'. t' \<noteq> t \<longrightarrow> slot st t' \<noteq> slot st t"
    by (metis slots_distinct_def)
  with assms(1) show ?thesis
    unfolding st' by (auto simp add: slots_distinct_def)
qed

lemma step_slots_distinct:
  "slots_distinct st \<Longrightarrow> step a st = Some st' \<Longrightarrow> slots_distinct st'"
  by (cases a) (auto simp add: get_slots_distinct thread_exit_slots_distinct split: if_splits sum.splits)

lemma run_slots_distinct:
  "slots_distinct st \<Longrightarrow> run as st = Some st' \<Longrightarrow> slots_distinct st'"
proof (induction as arbitrary: st)
  case Nil
  then show ?case by simp
next
  case (Cons a as)
  then show ?case
    by (auto split: option.splits dest: step_slots_distinct)
qed

lemma step_keeps_slot:
  assumes "step a st = Some st'" and "t \<notin> set (exits [a])" and "slot st t \<noteq> 0"
  shows "slot st' t = slot st t"
proof (cases a)
  case (Get t' created result)
  with assms show ?thesis
    by (cases created) (auto simp add: get_def create_and_get_def Let_def split: if_splits)
next
  case (Exit t' result)
  with assms show ?thesis
    by (auto simp add: thread_exit_def destroy_def Let_def split: if_splits sum.splits)
qed

lemma run_keeps_slot:
  "run as st = Some st' \<Longrightarrow> t \<notin> set (exits as) \<Longrightarrow> slot st t \<noteq> 0 \<Longrightarrow> slot st' t = slot st t"
proof (induction as arbitrary: st)
  case Nil
  then show ?case by simp
next
  case (Cons a as)
  from Cons.prems(1) obtain s where s: "step a st = Some s" "run as s = Some st'"
    by (auto split: option.splits)
  from Cons.prems(2) have e: "t \<notin> set (exits [a])" "t \<notin> set (exits as)"
    by (cases a; simp)+
  from s(1) e(1) Cons.prems(3) have k: "slot s t = slot st t" by (rule step_keeps_slot)
  with Cons.IH [OF s(2) e(2)] Cons.prems(3) show ?case by simp
qed

lemma get_Inr:
  assumes "get t created result st = (Inr p, st')" and "new_ok created st"
  shows "slot st' t = p \<and> p \<noteq> 0 \<and> (slot st t = p \<or> (slot st t = 0 \<and> p \<notin> set (live st)))"
  using assms
  by (cases created) (auto simp add: get_def create_and_get_def Let_def split: if_splits)

text \<open>
  C9. Take any run of a holder from its construction. A call of \<open>get\<close> on thread \<open>t1\<close>
  that returns a pointer returns one that is not null; as long as \<open>t1\<close> does not exit,
  whatever the threads do in between, a later call of \<open>get\<close> that returns a pointer
  returns the same pointer on \<open>t1\<close> and a different one on any other thread.
\<close>

theorem get_identity:
  assumes "thread_object_ctor rc = Inr s0"
    and "run pre s0 = Some s1"
    and "new_ok c1 s1"
    and "get t1 c1 r1 s1 = (Inr p1, s2)"
    and "run mid s2 = Some s3"
    and "t1 \<notin> set (exits mid)"
    and "new_ok c2 s3"
    and "get t2 c2 r2 s3 = (Inr p2, s4)"
  shows "p1 \<noteq> 0 \<and> p2 \<noteq> 0 \<and> (if t2 = t1 then p2 = p1 else p2 \<noteq> p1)"
proof -
  have i1: "slots_distinct s1"
    using assms(1,2) by (blast intro: slots_distinct_ctor run_slots_distinct)
  have "slots_distinct (snd (get t1 c1 r1 s1))"
    using i1 assms(3) by (rule get_slots_distinct)
  with assms(4) have i2: "slots_distinct s2" by simp
  from i2 assms(5) have i3: "slots_distinct s3" by (rule run_slots_distinct)
  from get_Inr [OF assms(4,3)] have g1: "slot s2 t1 = p1" "p1 \<noteq> 0" by simp_all
  from run_keeps_slot [OF assms(5,6)] g1 have k: "slot s3 t1 = p1" by simp
  from get_Inr [OF assms(8,7)]
  have g2: "p2 \<noteq> 0" "slot s3 t2 = p2 \<or> (slot s3 t2 = 0 \<and> p2 \<notin> set (live s3))" by simp_all
  have "p2 = p1" if "t2 = t1"
    using that g2 k g1 by auto
  moreover have "p2 \<noteq> p1" if "t2 \<noteq> t1"
  proof
    assume e: "p2 = p1"
    from i3 k g1 have "p1 \<in> set (live s3)" by (metis slots_distinct_def)
    with g2 e have "slot s3 t2 = p1" by auto
    with i3 k g1 that show False by (metis slots_distinct_def)
  qed
  ultimately show ?thesis using g1 g2 by simp
qed

theorem get_identity_witness:
  "thread_object_ctor 0 = Inr holder0
   \<and> run [] holder0 = Some holder0
   \<and> new_ok (Inr 4096) holder0
   \<and> get 1 (Inr 4096) 0 holder0 = (Inr 4096, \<lparr> slot = (\<lambda>t. 0)(1 := 4096), live = [4096] \<rparr>)
   \<and> run [Get 2 (Inr 8192) 0] \<lparr> slot = (\<lambda>t. 0)(1 := 4096), live = [4096] \<rparr>
       = Some \<lparr> slot = (\<lambda>t. 0)(1 := 4096, 2 := 8192), live = [8192, 4096] \<rparr>
   \<and> 1 \<notin> set (exits [Get 2 (Inr 8192) 0])
   \<and> new_ok (Inr 12288) \<lparr> slot = (\<lambda>t. 0)(1 := 4096, 2 := 8192), live = [8192, 4096] \<rparr>
   \<and> fst (get 1 (Inr 12288) 0
        \<lparr> slot = (\<lambda>t. 0)(1 := 4096, 2 := 8192), live = [8192, 4096] \<rparr>) = Inr 4096
   \<and> fst (get 2 (Inr 12288) 0
        \<lparr> slot = (\<lambda>t. 0)(1 := 4096, 2 := 8192), live = [8192, 4096] \<rparr>) = Inr 8192"
  using get_identity [of 0 holder0 "[]" holder0 "Inr 4096" 1 0 4096
      "\<lparr> slot = (\<lambda>t. 0)(1 := 4096), live = [4096] \<rparr>"
      "[Get 2 (Inr 8192) 0]"
      "\<lparr> slot = (\<lambda>t. 0)(1 := 4096, 2 := 8192), live = [8192, 4096] \<rparr>"
      "Inr 12288" 1 0 4096
      "\<lparr> slot = (\<lambda>t. 0)(1 := 4096, 2 := 8192), live = [8192, 4096] \<rparr>"]
    get_identity [of 0 holder0 "[]" holder0 "Inr 4096" 1 0 4096
      "\<lparr> slot = (\<lambda>t. 0)(1 := 4096), live = [4096] \<rparr>"
      "[Get 2 (Inr 8192) 0]"
      "\<lparr> slot = (\<lambda>t. 0)(1 := 4096, 2 := 8192), live = [8192, 4096] \<rparr>"
      "Inr 12288" 2 0 8192
      "\<lparr> slot = (\<lambda>t. 0)(1 := 4096, 2 := 8192), live = [8192, 4096] \<rparr>"]
  by (simp add: holder0_def thread_object_ctor_def get_def create_and_get_def)

text \<open>
  C10. On a thread that has no instance yet, \<open>get\<close> creates one; with the object
  created at \<open>p\<close>, it returns \<open>p\<close> and stores it in the slot when
  \<open>pthread_setspecific\<close> returns 0, throws \<open>bad_alloc\<close> when it returns \<open>ENOMEM\<close>, and
  throws a \<open>system_error\<close> carrying the code for any other result; in the last two
  cases the slot stays null.
\<close>

theorem create_and_get_results:
  assumes "slot st t = 0"
  shows "get t (Inr p) result st = create_and_get t (Inr p) result st
       \<and> fst (create_and_get t (Inr p) result st) =
           (if result = 0 then Inr p
            else if result = ENOMEM then Inl BadAlloc
            else Inl (SystemError result))
       \<and> slot (snd (create_and_get t (Inr p) result st)) t = (if result = 0 then p else 0)"
  using assms by (simp add: get_def create_and_get_def Let_def)

theorem create_and_get_results_witness:
  "slot holder0 1 = 0
   \<and> fst (get 1 (Inr 4096) 0 holder0) = Inr 4096
   \<and> fst (get 1 (Inr 4096) ENOMEM holder0) = Inl BadAlloc
   \<and> fst (get 1 (Inr 4096) 22 holder0) = Inl (SystemError 22)"
  using create_and_get_results [of holder0 1 4096 0]
    create_and_get_results [of holder0 1 4096 ENOMEM]
    create_and_get_results [of holder0 1 4096 22]
  by (simp add: holder0_def ENOMEM_def)

end
